theory Spec2Isabelle
  imports Main
begin

section \<open>The command engine of CommandPattern.ts\<close>

text \<open>
  The embedding follows \<^verbatim>\<open>src/VanillaPatterns/DesignPatterns/CommandPattern.ts\<close>.

  \<^item> The receivers \<^verbatim>\<open>Light\<close> and \<^verbatim>\<open>TV\<close> have no fields: \<^verbatim>\<open>on()\<close> and
    \<^verbatim>\<open>off()\<close> only print a line. A receiver object is its address, and each printed line
    is kept with the object that printed it.
  \<^item> The commands are the five classes of the source that implement \<^verbatim>\<open>Command\<close>.
    The four concrete commands are immutable objects holding one receiver; they are
    values. A \<^verbatim>\<open>MacroCommand\<close> holds a reference to the array it was constructed
    with (\<^verbatim>\<open>this.commands = commands\<close>, no copy), and \<^verbatim>\<open>undo()\<close> reverses that
    array in place, so arrays live in a store and a macro is the address of its array.
  \<^item> \<^verbatim>\<open>RemoteControl.commands\<close> is created by the field initialiser and never leaves
    the object, so it is a list inside the record.
  \<^item> A raised exception is the first component of the outcome; the state reached when it
    was raised is kept beside it.
  \<^item> Macros may be nested, and an array may (through the shared reference) come to hold
    a macro over itself. The first argument of \<open>execute\<close> and \<open>undo\<close> is the number of
    nested command calls the call stack still has room for; when it is used up the
    engine raises \<^verbatim>\<open>RangeError\<close>.
\<close>

type_synonym ref = nat

datatype receiver = Light ref | TV ref

datatype Command =
    LightOnCommand ref
  | LightOffCommand ref
  | TVOnCommand ref
  | TVOffCommand ref
  | MacroCommand ref

datatype error = TypeError | RangeError

type_synonym line = "receiver option \<times> string"

record world =
  arrays :: "ref \<rightharpoonup> Command list"
  console :: "line list"

type_synonym outcome = "error option \<times> world"

definition console_log :: "receiver option \<Rightarrow> string \<Rightarrow> world \<Rightarrow> world" where
  "console_log who msg w = w\<lparr>console := console w @ [(who, msg)]\<rparr>"

subsection \<open>Receivers\<close>

definition Light_on :: "ref \<Rightarrow> world \<Rightarrow> world" where
  "Light_on l w = console_log (Some (Light l)) ''Light is ON'' w"

definition Light_off :: "ref \<Rightarrow> world \<Rightarrow> world" where
  "Light_off l w = console_log (Some (Light l)) ''Light is OFF'' w"

definition TV_on :: "ref \<Rightarrow> world \<Rightarrow> world" where
  "TV_on t w = console_log (Some (TV t)) ''TV is ON'' w"

definition TV_off :: "ref \<Rightarrow> world \<Rightarrow> world" where
  "TV_off t w = console_log (Some (TV t)) ''TV is OFF'' w"

text \<open>What can be observed of a receiver: the last line it printed, if any.\<close>

definition last_line :: "receiver \<Rightarrow> line list \<Rightarrow> string option" where
  "last_line r out =
     (case filter (\<lambda>l. fst l = Some r) out of
        [] \<Rightarrow> None
      | x # xs \<Rightarrow> Some (snd (last (x # xs))))"

definition observable :: "receiver \<Rightarrow> world \<Rightarrow> string option" where
  "observable r w = last_line r (console w)"

subsection \<open>Commands\<close>

text \<open>
  \<^verbatim>\<open>Array.prototype.forEach\<close>: the length is read once, then every index below it is
  read from the array as it is at that moment and handed to the callback. \<open>a\<close> is the
  address of the array, \<open>k\<close> the next index. An address with no array cannot arise in
  the program; the model answers \<^verbatim>\<open>TypeError\<close> there.
\<close>

function forEach ::
  "ref \<Rightarrow> (Command \<Rightarrow> world \<Rightarrow> outcome) \<Rightarrow> nat \<Rightarrow> nat \<Rightarrow> world \<Rightarrow> outcome" where
  "forEach a callback k len w =
     (if k < len then
        (case arrays w a of
           None \<Rightarrow> (Some TypeError, w)
         | Some xs \<Rightarrow>
             (if k < length xs then
                (case callback (xs ! k) w of
                   (None, w') \<Rightarrow> forEach a callback (Suc k) len w'
                 | (Some e, w') \<Rightarrow> (Some e, w'))
              else forEach a callback (Suc k) len w))
      else (None, w))"
  by pat_completeness auto
termination
  by (relation "measure (\<lambda>(a, callback, k, len, w). len - k)") auto

declare forEach.simps [simp del]

primrec execute :: "nat \<Rightarrow> Command \<Rightarrow> world \<Rightarrow> outcome" where
  "execute 0 c w = (Some RangeError, w)"
| "execute (Suc d) c w =
     (case c of
        LightOnCommand l \<Rightarrow> (None, Light_on l w)
      | LightOffCommand l \<Rightarrow> (None, Light_off l w)
      | TVOnCommand t \<Rightarrow> (None, TV_on t w)
      | TVOffCommand t \<Rightarrow> (None, TV_off t w)
      | MacroCommand a \<Rightarrow>
          (case arrays w a of
             None \<Rightarrow> (Some TypeError, w)
           | Some xs \<Rightarrow> forEach a (execute d) 0 (length xs) w))"

primrec undo :: "nat \<Rightarrow> Command \<Rightarrow> world \<Rightarrow> outcome" where
  "undo 0 c w = (Some RangeError, w)"
| "undo (Suc d) c w =
     (case c of
        LightOnCommand l \<Rightarrow> (None, Light_off l w)
      | LightOffCommand l \<Rightarrow> (None, Light_on l w)
      | TVOnCommand t \<Rightarrow> (None, TV_off t w)
      | TVOffCommand t \<Rightarrow> (None, TV_on t w)
      | MacroCommand a \<Rightarrow>
          (case arrays w a of
             None \<Rightarrow> (Some TypeError, w)
           | Some xs \<Rightarrow>
               forEach a (undo d) 0 (length xs)
                 (w\<lparr>arrays := (arrays w)(a \<mapsto> rev xs)\<rparr>)))"

subsection \<open>The invoker\<close>

record RemoteControl =
  commands :: "Command list"
  undoCommand :: "Command option"

definition new_RemoteControl :: RemoteControl where
  "new_RemoteControl = \<lparr>commands = [], undoCommand = None\<rparr>"

text \<open>
  \<^verbatim>\<open>setCommand(command: Command): void\<close>. The value of a call of a \<^verbatim>\<open>void\<close>
  method is \<^verbatim>\<open>undefined\<close>; it is the first component of the result.
\<close>

datatype js_value = Undefined | Number int

definition setCommand :: "Command \<Rightarrow> RemoteControl \<Rightarrow> js_value \<times> RemoteControl" where
  "setCommand command rc = (Undefined, rc\<lparr>commands := commands rc @ [command]\<rparr>)"

text \<open>
  \<^verbatim>\<open>pressButton(index: number)\<close>, for an integral \<open>index\<close>. The only test is
  \<^verbatim>\<open>index < this.commands.length\<close>. For a negative index it succeeds,
  \<^verbatim>\<open>this.commands[index]\<close> is \<^verbatim>\<open>undefined\<close>, and the call of \<^verbatim>\<open>execute\<close> on
  it raises \<^verbatim>\<open>TypeError\<close> before anything is printed or stored.
\<close>

definition pressButton ::
  "nat \<Rightarrow> int \<Rightarrow> RemoteControl \<Rightarrow> world \<Rightarrow> error option \<times> RemoteControl \<times> world" where
  "pressButton d index rc w =
     (if index < int (length (commands rc)) then
        (if 0 \<le> index then
           (case execute d (commands rc ! nat index) w of
              (None, w') \<Rightarrow> (None, rc\<lparr>undoCommand := Some (commands rc ! nat index)\<rparr>, w')
            | (Some e, w') \<Rightarrow> (Some e, rc, w'))
         else (Some TypeError, rc, w))
      else (None, rc, console_log None ''Command not found'' w))"

definition pressUndo ::
  "nat \<Rightarrow> RemoteControl \<Rightarrow> world \<Rightarrow> error option \<times> RemoteControl \<times> world" where
  "pressUndo d rc w =
     (case undoCommand rc of
        Some c \<Rightarrow>
          (case undo d c w of
             (None, w') \<Rightarrow> (None, rc\<lparr>undoCommand := None\<rparr>, w')
           | (Some e, w') \<Rightarrow> (Some e, rc, w'))
      | None \<Rightarrow> (None, rc, console_log None ''No command to undo'' w))"

text \<open>Registering a list of commands, one \<^verbatim>\<open>setCommand\<close> call after the other.\<close>

definition register_all :: "Command list \<Rightarrow> RemoteControl \<Rightarrow> RemoteControl" where
  "register_all cs rc = fold (\<lambda>c rc. snd (setCommand c rc)) cs rc"

text \<open>
  A client's sequence of button presses. As in the client code, the calls follow each
  other with no handler around them, so the first exception ends the sequence.
\<close>

datatype press = PressButton int | PressUndo

fun press_one ::
  "nat \<Rightarrow> press \<Rightarrow> RemoteControl \<Rightarrow> world \<Rightarrow> error option \<times> RemoteControl \<times> world" where
  "press_one d (PressButton index) rc w = pressButton d index rc w"
| "press_one d PressUndo rc w = pressUndo d rc w"

fun press_all ::
  "nat \<Rightarrow> press list \<Rightarrow> RemoteControl \<Rightarrow> world \<Rightarrow> error option \<times> RemoteControl \<times> world" where
  "press_all d [] rc w = (None, rc, w)"
| "press_all d (p # ps) rc w =
     (case press_one d p rc w of
        (None, rc', w') \<Rightarrow> press_all d ps rc' w'
      | (Some e, rc', w') \<Rightarrow> (Some e, rc', w'))"

subsection \<open>The client code\<close>

text \<open>
  The store after the two macros \<^verbatim>\<open>partyModeOn\<close> and \<^verbatim>\<open>partyModeOff\<close> are
  constructed: their array literals are at addresses 0 and 1. \<open>l\<close> and \<open>t\<close> are the
  light and the TV, \<open>out\<close> is what the console holds so far.
\<close>

definition client_world :: "ref \<Rightarrow> ref \<Rightarrow> line list \<Rightarrow> world" where
  "client_world l t out =
     \<lparr>arrays = [0 \<mapsto> [LightOnCommand l, TVOnCommand t],
                1 \<mapsto> [LightOffCommand l, TVOffCommand t]],
      console = out\<rparr>"

text \<open>The remote of the client code: lightOn, tvOn, lightOff, tvOff, then the macros.\<close>

definition client_remote :: "ref \<Rightarrow> ref \<Rightarrow> RemoteControl" where
  "client_remote l t =
     register_all
       [LightOnCommand l, TVOnCommand t, LightOffCommand l, TVOffCommand t,
        MacroCommand 0, MacroCommand 1]
       new_RemoteControl"

text \<open>The remote of the specification's scenario: the same commands, LightOff before TVOn.\<close>

definition scenario_remote :: "ref \<Rightarrow> ref \<Rightarrow> RemoteControl" where
  "scenario_remote l t =
     register_all
       [LightOnCommand l, LightOffCommand l, TVOnCommand t, TVOffCommand t,
        MacroCommand 0, MacroCommand 1]
       new_RemoteControl"

definition client_presses :: "press list" where
  "client_presses =
     [PressButton 0, PressButton 1, PressButton 2, PressButton 3, PressButton 4,
      PressButton 5, PressUndo]"

text \<open>
  A world in which the light and the TV of the client code have last been switched off.
\<close>

definition off_lines :: "line list" where
  "off_lines = [(Some (Light 0), ''Light is OFF''), (Some (TV 1), ''TV is OFF'')]"

section \<open>Describing runs\<close>

text \<open>
  Calling \<open>callback\<close> on the commands of a list, from left to right, up to the first
  exception. This is the order of invocation that the claims about macros speak of.
\<close>

fun each :: "(Command \<Rightarrow> world \<Rightarrow> outcome) \<Rightarrow> Command list \<Rightarrow> world \<Rightarrow> outcome" where
  "each callback [] w = (None, w)"
| "each callback (c # cs) w =
     (case callback c w of
        (None, w') \<Rightarrow> each callback cs w'
      | (Some e, w') \<Rightarrow> (Some e, w'))"

text \<open>
  The receiver a concrete command is bound to, and the line its \<^verbatim>\<open>undo()\<close> makes the
  receiver print (lines 51-53, 68-70, 85-87 and 102-104 of the source).
\<close>

definition receiver_of :: "Command \<Rightarrow> receiver option" where
  "receiver_of c =
     (case c of
        LightOnCommand l \<Rightarrow> Some (Light l)
      | LightOffCommand l \<Rightarrow> Some (Light l)
      | TVOnCommand t \<Rightarrow> Some (TV t)
      | TVOffCommand t \<Rightarrow> Some (TV t)
      | MacroCommand a \<Rightarrow> None)"

definition undone :: "Command \<Rightarrow> string" where
  "undone c =
     (case c of
        LightOnCommand l \<Rightarrow> ''Light is OFF''
      | LightOffCommand l \<Rightarrow> ''Light is ON''
      | TVOnCommand t \<Rightarrow> ''TV is OFF''
      | TVOffCommand t \<Rightarrow> ''TV is ON''
      | MacroCommand a \<Rightarrow> [])"

text \<open>The number of receiver calls so far: the lines printed by a receiver.\<close>

definition receiver_actions :: "world \<Rightarrow> nat" where
  "receiver_actions w = length (filter (\<lambda>l. fst l \<noteq> None) (console w))"

text \<open>
  \<open>reaches w c c'\<close>: \<open>c'\<close> is \<open>c\<close> itself or a member, at any depth, of the macro
  \<open>c\<close> in the store of \<open>w\<close>. The receivers bound by \<open>c\<close> are the receivers of the
  concrete commands it reaches.
\<close>

inductive reaches :: "world \<Rightarrow> Command \<Rightarrow> Command \<Rightarrow> bool" for w where
  self: "reaches w c c"
| member: "arrays w a = Some xs \<Longrightarrow> x \<in> set xs \<Longrightarrow> reaches w x c \<Longrightarrow>
           reaches w (MacroCommand a) c"

code_pred reaches .

text \<open>
  \<open>settled w c\<close>: every receiver bound by \<open>c\<close> shows, in \<open>w\<close>, the state that the
  \<^verbatim>\<open>undo()\<close> of the command binding it leaves: OFF for an On command, ON for an Off
  command.
\<close>

definition settled :: "world \<Rightarrow> Command \<Rightarrow> bool" where
  "settled w c \<longleftrightarrow>
     (\<forall>c' r. reaches w c c' \<longrightarrow> receiver_of c' = Some r \<longrightarrow>
        observable r w = Some (undone c'))"

subsection \<open>Stores without cycles\<close>

text \<open>
  \<open>ranked rank w\<close>: every macro inside an array is over an array that exists and has a
  smaller rank, so no array holds, at any depth, a macro over itself. A store built from
  array literals alone is ranked by the nesting height of its arrays; a store with a
  cycle is not, and on a macro over its own array \<open>execute\<close> and \<open>undo\<close> end in
  \<^verbatim>\<open>RangeError\<close> however much room the stack has. \<open>depth rank c\<close> bounds the nested
  calls that \<open>c\<close> needs.
\<close>

definition ranked :: "(ref \<Rightarrow> nat) \<Rightarrow> world \<Rightarrow> bool" where
  "ranked rank w \<longleftrightarrow>
     (\<forall>a xs b. arrays w a = Some xs \<longrightarrow> MacroCommand b \<in> set xs \<longrightarrow>
        rank b < rank a \<and> arrays w b \<noteq> None)"

definition allocated :: "world \<Rightarrow> Command \<Rightarrow> bool" where
  "allocated w c = (case c of MacroCommand a \<Rightarrow> arrays w a \<noteq> None | _ \<Rightarrow> True)"

definition depth :: "(ref \<Rightarrow> nat) \<Rightarrow> Command \<Rightarrow> nat" where
  "depth rank c = (case c of MacroCommand a \<Rightarrow> rank a + 2 | _ \<Rightarrow> 1)"

text \<open>
  Notions of the proofs. Two worlds have the same members when their arrays hold the
  same commands, in any order; \<open>above rank c a\<close> says that the array \<open>a\<close> ranks higher
  than the array of \<open>c\<close>; \<open>kept\<close> is what \<open>undo\<close> of \<open>c\<close> preserves; \<open>lines_of w c\<close>
  are the lines that the members of \<open>c\<close> print when undone; \<open>prints res w L\<close> says that
  the outcome \<open>res\<close> added to the console of \<open>w\<close> only lines of \<open>L\<close>, and all of
  them if it returned.
\<close>

definition same_members :: "world \<Rightarrow> world \<Rightarrow> bool" where
  "same_members w w' \<longleftrightarrow> (\<forall>a. map_option set (arrays w' a) = map_option set (arrays w a))"

definition above :: "(ref \<Rightarrow> nat) \<Rightarrow> Command \<Rightarrow> ref \<Rightarrow> bool" where
  "above rank c a = (case c of MacroCommand b \<Rightarrow> rank b < rank a | _ \<Rightarrow> True)"

definition kept :: "(ref \<Rightarrow> nat) \<Rightarrow> Command \<Rightarrow> world \<Rightarrow> world \<Rightarrow> bool" where
  "kept rank c w w' \<longleftrightarrow>
     same_members w w' \<and> (\<forall>a. above rank c a \<longrightarrow> arrays w' a = arrays w a)"

definition lines_of :: "world \<Rightarrow> Command \<Rightarrow> line set" where
  "lines_of w c =
     {(receiver_of c', undone c') | c'. reaches w c c' \<and> receiver_of c' \<noteq> None}"

definition prints :: "outcome \<Rightarrow> world \<Rightarrow> line set \<Rightarrow> bool" where
  "prints res w L \<longleftrightarrow>
     (\<exists>ls. console (snd res) = console w @ ls \<and> set ls \<subseteq> L \<and>
        (fst res = None \<longrightarrow> set ls = L))"

section \<open>Basic facts\<close>

lemmas receiver_defs = Light_on_def Light_off_def TV_on_def TV_off_def console_log_def

lemmas client_defs =
  client_world_def client_remote_def scenario_remote_def client_presses_def
  register_all_def new_RemoteControl_def setCommand_def

lemma last_line_append:
  "last_line r (out @ ls) =
     (case last_line r ls of Some m \<Rightarrow> Some m | None \<Rightarrow> last_line r out)"
  by (cases "filter (\<lambda>l. fst l = Some r) ls"; cases "filter (\<lambda>l. fst l = Some r) out")
     (simp_all add: last_line_def)

lemma pressButton_not_found:
  "int (length (commands rc)) \<le> index \<Longrightarrow>
   pressButton d index rc w = (None, rc, console_log None ''Command not found'' w)"
  by (simp add: pressButton_def)

lemma pressButton_valid:
  "0 \<le> index \<Longrightarrow> index < int (length (commands rc)) \<Longrightarrow>
   commands rc ! nat index = c \<Longrightarrow>
   pressButton d index rc w =
     (case execute d c w of
        (None, w') \<Rightarrow> (None, rc\<lparr>undoCommand := Some c\<rparr>, w')
      | (Some e, w') \<Rightarrow> (Some e, rc, w'))"
  by (auto simp: pressButton_def split: prod.split option.split)

lemma commands_register_all: "commands (register_all cs rc) = commands rc @ cs"
  unfolding register_all_def
  by (induction cs arbitrary: rc) (simp_all add: setCommand_def)

lemma commands_pressButton: "commands (fst (snd (pressButton d index rc w))) = commands rc"
  by (simp add: pressButton_def split: prod.split option.split)

lemma commands_pressUndo: "commands (fst (snd (pressUndo d rc w))) = commands rc"
  by (simp add: pressUndo_def split: prod.split option.split)

lemma commands_press_one: "commands (fst (snd (press_one d p rc w))) = commands rc"
  by (cases p) (simp_all add: commands_pressButton commands_pressUndo)

lemma commands_press_all: "commands (fst (snd (press_all d ps rc w))) = commands rc"
proof (induction ps arbitrary: rc w)
  case Nil
  show ?case by simp
next
  case (Cons p ps)
  show ?case
  proof (cases "press_one d p rc w" rule: prod_cases3)
    case (fields st rc' w')
    have same: "commands rc' = commands rc"
      using commands_press_one [of d p rc w] fields by simp
    show ?thesis
    proof (cases st)
      case None
      then show ?thesis using fields same Cons.IH [of rc' w'] by simp
    next
      case (Some e)
      then show ?thesis using fields same by simp
    qed
  qed
qed

subsection \<open>Invariants of a run over a list\<close>

lemma each_invariant:
  assumes step: "\<And>c w. I w \<Longrightarrow> c \<in> set cs \<Longrightarrow> I (snd (callback c w))"
  shows "I w \<Longrightarrow> I (snd (each callback cs w))"
  using step
proof (induction cs arbitrary: w)
  case Nil
  then show ?case by simp
next
  case (Cons c cs)
  obtain st w' where r: "callback c w = (st, w')" by (cases "callback c w")
  have I': "I w'" using Cons.prems(2) [of w c] Cons.prems(1) r by simp
  show ?case
  proof (cases st)
    case None
    have "I (snd (each callback cs w'))"
      by (rule Cons.IH [OF I']) (simp add: Cons.prems(2))
    then show ?thesis using r None by simp
  next
    case (Some e)
    then show ?thesis using r I' by simp
  qed
qed

lemma each_returns:
  assumes step: "\<And>c w. I w \<Longrightarrow> c \<in> set cs \<Longrightarrow> I (snd (callback c w)) \<and> fst (callback c w) = None"
  shows "I w \<Longrightarrow> fst (each callback cs w) = None"
  using step
proof (induction cs arbitrary: w)
  case Nil
  then show ?case by simp
next
  case (Cons c cs)
  obtain st w' where r: "callback c w = (st, w')" by (cases "callback c w")
  have I': "I w'" and st: "st = None"
    using Cons.prems(2) [of w c] Cons.prems(1) r by simp_all
  have "fst (each callback cs w') = None"
    by (rule Cons.IH [OF I']) (simp add: Cons.prems(2))
  then show ?case using r st by simp
qed

subsection \<open>forEach over an array that the callback leaves alone\<close>

lemma forEach_each:
  assumes step: "\<And>c w. I w \<Longrightarrow> c \<in> set xs \<Longrightarrow> I (snd (callback c w))"
    and stable: "\<And>w. I w \<Longrightarrow> arrays w a = Some xs"
  shows "I w \<Longrightarrow> k \<le> length xs \<Longrightarrow> forEach a callback k (length xs) w = each callback (drop k xs) w"
proof (induction "length xs - k" arbitrary: k w)
  case 0
  then have "k = length xs" by simp
  then show ?case by (simp add: forEach.simps)
next
  case (Suc n)
  then have k: "k < length xs" by simp
  have arr: "arrays w a = Some xs" using stable Suc.prems(1) .
  obtain st w' where r: "callback (xs ! k) w = (st, w')" by (cases "callback (xs ! k) w")
  have I': "I w'" using step [of w "xs ! k"] Suc.prems(1) k r by simp
  have d: "drop k xs = xs ! k # drop (Suc k) xs"
    using k by (simp add: Cons_nth_drop_Suc)
  show ?case
  proof (cases st)
    case None
    have "forEach a callback (Suc k) (length xs) w' = each callback (drop (Suc k) xs) w'"
      using Suc.hyps(1) [of "Suc k" w'] Suc.hyps(2) I' k by simp
    then show ?thesis
      using k arr r None d by (simp add: forEach.simps [of a callback k])
  next
    case (Some e)
    then show ?thesis
      using k arr r d by (simp add: forEach.simps [of a callback k])
  qed
qed

subsection \<open>execute leaves the arrays alone\<close>

lemma arrays_console_log [simp]: "arrays (console_log who msg w) = arrays w"
  by (simp add: console_log_def)

lemma arrays_execute: "arrays (snd (execute d c w)) = arrays w"
proof (induction d arbitrary: c w)
  case 0
  show ?case by simp
next
  case (Suc d)
  show ?case
  proof (cases c)
    case (MacroCommand a)
    show ?thesis
    proof (cases "arrays w a")
      case None
      then show ?thesis using MacroCommand by simp
    next
      case (Some xs)
      let ?I = "\<lambda>w'. arrays w' = arrays w"
      have eq: "forEach a (execute d) 0 (length xs) w = each (execute d) (drop 0 xs) w"
        by (rule forEach_each [where I = ?I]) (simp_all add: Suc.IH Some)
      have "?I (snd (each (execute d) xs w))"
        by (rule each_invariant [where I = ?I]) (simp_all add: Suc.IH)
      then show ?thesis using MacroCommand Some eq by simp
    qed
  qed (simp_all add: receiver_defs)
qed

lemma execute_macro:
  assumes "arrays w a = Some xs"
  shows "execute (Suc d) (MacroCommand a) w = each (execute d) xs w"
proof -
  let ?I = "\<lambda>w'. arrays w' = arrays w"
  have "forEach a (execute d) 0 (length xs) w = each (execute d) (drop 0 xs) w"
    by (rule forEach_each [where I = ?I]) (simp_all add: arrays_execute assms)
  then show ?thesis using assms by simp
qed

subsection \<open>What undo changes in a ranked store\<close>

lemma same_members_refl: "same_members w w"
  by (simp add: same_members_def)

lemma same_members_trans: "same_members w w' \<Longrightarrow> same_members w' w'' \<Longrightarrow> same_members w w''"
  by (simp add: same_members_def)

lemma same_members_sym: "same_members w w' \<Longrightarrow> same_members w' w"
  by (simp add: same_members_def)

lemma same_members_console_log: "same_members w (console_log who msg w)"
  by (simp add: same_members_def)

lemma same_members_reverse:
  "arrays w a = Some xs \<Longrightarrow> same_members w (w\<lparr>arrays := (arrays w)(a \<mapsto> rev xs)\<rparr>)"
  by (simp add: same_members_def)

lemma same_members_Some:
  "same_members w w' \<Longrightarrow> arrays w' a = Some ys \<Longrightarrow> \<exists>xs. arrays w a = Some xs \<and> set xs = set ys"
  unfolding same_members_def
  by (metis map_option_eq_Some option.simps(9))

lemma same_members_None:
  "same_members w w' \<Longrightarrow> arrays w' a = None \<longleftrightarrow> arrays w a = None"
  unfolding same_members_def
  by (metis option.map_disc_iff)

lemma ranked_same_members:
  assumes "ranked rank w" and "same_members w w'"
  shows "ranked rank w'"
  unfolding ranked_def
proof (intro allI impI)
  fix a ys b
  assume ys: "arrays w' a = Some ys" and b: "MacroCommand b \<in> set ys"
  obtain xs where xs: "arrays w a = Some xs" "set xs = set ys"
    using same_members_Some [OF assms(2) ys] by blast
  have "rank b < rank a \<and> arrays w b \<noteq> None"
    using assms(1) xs b unfolding ranked_def by blast
  then show "rank b < rank a \<and> arrays w' b \<noteq> None"
    using same_members_None [OF assms(2), of b] by simp
qed

lemma ranked_member_above:
  "ranked rank w \<Longrightarrow> arrays w a = Some xs \<Longrightarrow> c \<in> set xs \<Longrightarrow> above rank c a"
  unfolding ranked_def above_def by (cases c) auto

lemma above_trans: "above rank c a \<Longrightarrow> rank a < rank a' \<Longrightarrow> above rank c a'"
  unfolding above_def by (cases c) auto

lemma undo_kept: "ranked rank w \<Longrightarrow> kept rank c w (snd (undo d c w))"
proof (induction d arbitrary: c w)
  case 0
  show ?case by (simp add: kept_def same_members_refl)
next
  case (Suc d)
  show ?case
  proof (cases c)
    case (MacroCommand a)
    show ?thesis
    proof (cases "arrays w a")
      case None
      then show ?thesis using MacroCommand by (simp add: kept_def same_members_refl)
    next
      case (Some xs)
      let ?w1 = "w\<lparr>arrays := (arrays w)(a \<mapsto> rev xs)\<rparr>"
      let ?I = "\<lambda>w'. ranked rank w' \<and> arrays w' a = Some (rev xs) \<and> same_members w w' \<and>
                  (\<forall>a'. rank a < rank a' \<longrightarrow> arrays w' a' = arrays w a')"
      have step: "?I (snd (undo d c' w'))" if I: "?I w'" and c': "c' \<in> set (rev xs)" for c' w'
      proof -
        have k: "kept rank c' w' (snd (undo d c' w'))"
          using Suc.IH I by blast
        have ab: "above rank c' a"
          using ranked_member_above I c' by blast
        have 1: "ranked rank (snd (undo d c' w'))"
          using ranked_same_members I k unfolding kept_def by blast
        have 2: "arrays (snd (undo d c' w')) a = Some (rev xs)"
          using k ab I unfolding kept_def by simp
        have 3: "same_members w (snd (undo d c' w'))"
          using same_members_trans I k unfolding kept_def by blast
        have 4: "\<forall>a'. rank a < rank a' \<longrightarrow> arrays (snd (undo d c' w')) a' = arrays w a'"
          using k I above_trans [OF ab] unfolding kept_def by simp
        show ?thesis using 1 2 3 4 by blast
      qed
      have I1: "?I ?w1"
      proof -
        have "same_members w ?w1" using same_members_reverse [OF Some] .
        moreover have "ranked rank ?w1"
          using ranked_same_members [OF Suc.prems] calculation .
        moreover have "\<forall>a'. rank a < rank a' \<longrightarrow> arrays ?w1 a' = arrays w a'"
          by auto
        ultimately show ?thesis by simp
      qed
      have eq: "forEach a (undo d) 0 (length (rev xs)) ?w1 = each (undo d) (drop 0 (rev xs)) ?w1"
        by (rule forEach_each [where I = ?I]) (use step I1 in simp_all)
      have "?I (snd (each (undo d) (rev xs) ?w1))"
        by (rule each_invariant [where I = ?I]) (use step I1 in simp_all)
      then have "?I (snd (undo (Suc d) c w))"
        using MacroCommand Some eq by simp
      then show ?thesis
        using MacroCommand by (simp add: kept_def above_def)
    qed
  qed (simp_all add: Light_on_def Light_off_def TV_on_def TV_off_def kept_def same_members_console_log)
qed

lemma undo_macro:
  assumes r: "ranked rank w" and arr: "arrays w a = Some xs"
  shows "undo (Suc d) (MacroCommand a) w =
           each (undo d) (rev xs) (w\<lparr>arrays := (arrays w)(a \<mapsto> rev xs)\<rparr>)"
proof -
  let ?w1 = "w\<lparr>arrays := (arrays w)(a \<mapsto> rev xs)\<rparr>"
  let ?I = "\<lambda>w'. ranked rank w' \<and> arrays w' a = Some (rev xs)"
  have step: "?I (snd (undo d c' w'))" if I: "?I w'" and c': "c' \<in> set (rev xs)" for c' w'
  proof -
    have k: "kept rank c' w' (snd (undo d c' w'))"
      using undo_kept I by blast
    have ab: "above rank c' a"
      using ranked_member_above I c' by blast
    show ?thesis
      using ranked_same_members k ab I unfolding kept_def by auto
  qed
  have I1: "?I ?w1"
    using ranked_same_members [OF r same_members_reverse [OF arr]] by simp
  have "forEach a (undo d) 0 (length (rev xs)) ?w1 = each (undo d) (drop 0 (rev xs)) ?w1"
    by (rule forEach_each [where I = ?I]) (use step I1 in simp_all)
  then show ?thesis using arr by simp
qed

lemma undo_macro_array:
  assumes r: "ranked rank w" and arr: "arrays w a = Some xs"
  shows "arrays (snd (undo (Suc d) (MacroCommand a) w)) a = Some (rev xs)"
proof -
  let ?w1 = "w\<lparr>arrays := (arrays w)(a \<mapsto> rev xs)\<rparr>"
  let ?I = "\<lambda>w'. ranked rank w' \<and> arrays w' a = Some (rev xs)"
  have step: "?I (snd (undo d c' w'))" if I: "?I w'" and c': "c' \<in> set (rev xs)" for c' w'
  proof -
    have k: "kept rank c' w' (snd (undo d c' w'))"
      using undo_kept I by blast
    have ab: "above rank c' a"
      using ranked_member_above I c' by blast
    show ?thesis
      using ranked_same_members k ab I unfolding kept_def by auto
  qed
  have I1: "?I ?w1"
    using ranked_same_members [OF r same_members_reverse [OF arr]] by simp
  have "?I (snd (each (undo d) (rev xs) ?w1))"
    by (rule each_invariant [where I = ?I]) (use step I1 in simp_all)
  then show ?thesis using undo_macro [OF r arr] by simp
qed

lemma ranked_arrays_eq: "arrays w' = arrays w \<Longrightarrow> ranked rank w' = ranked rank w"
  by (simp add: ranked_def)

lemma ranked_member_allocated:
  "ranked rank w \<Longrightarrow> arrays w a = Some xs \<Longrightarrow> c \<in> set xs \<Longrightarrow> allocated w c"
  unfolding ranked_def allocated_def by (cases c) auto

lemma ranked_member_depth:
  "ranked rank w \<Longrightarrow> arrays w a = Some xs \<Longrightarrow> c \<in> set xs \<Longrightarrow>
   depth rank (MacroCommand a) \<le> Suc d \<Longrightarrow> depth rank c \<le> d"
proof (cases c)
  case (MacroCommand b)
  assume "ranked rank w" "arrays w a = Some xs" "c \<in> set xs"
    and le: "depth rank (MacroCommand a) \<le> Suc d"
  then have "rank b < rank a"
    using MacroCommand unfolding ranked_def by blast
  then show ?thesis using le MacroCommand by (simp add: depth_def)
qed (simp_all add: depth_def)

lemma allocated_arrays_eq: "arrays w' = arrays w \<Longrightarrow> allocated w' c = allocated w c"
  by (cases c) (simp_all add: allocated_def)

lemma allocated_same_members: "same_members w w' \<Longrightarrow> allocated w c \<Longrightarrow> allocated w' c"
  unfolding allocated_def using same_members_None by (cases c) auto

lemma execute_returns:
  "ranked rank w \<Longrightarrow> allocated w c \<Longrightarrow> depth rank c \<le> d \<Longrightarrow> fst (execute d c w) = None"
proof (induction d arbitrary: c w)
  case 0
  then show ?case by (cases c) (simp_all add: depth_def)
next
  case (Suc d)
  show ?case
  proof (cases c)
    case (MacroCommand a)
    obtain xs where arr: "arrays w a = Some xs"
      using Suc.prems(2) MacroCommand by (auto simp: allocated_def)
    let ?I = "\<lambda>w'. arrays w' = arrays w"
    have step: "?I (snd (execute d c' w')) \<and> fst (execute d c' w') = None"
      if I: "?I w'" and c': "c' \<in> set xs" for c' w'
    proof -
      have "ranked rank w'" using ranked_arrays_eq [OF I] Suc.prems(1) by simp
      moreover have "allocated w' c'"
        using ranked_member_allocated [OF Suc.prems(1) arr c'] allocated_arrays_eq [OF I] by simp
      moreover have "depth rank c' \<le> d"
        using ranked_member_depth [OF Suc.prems(1) arr c'] Suc.prems(3) MacroCommand by simp
      ultimately have "fst (execute d c' w') = None" by (rule Suc.IH)
      then show ?thesis using I by (simp add: arrays_execute)
    qed
    have "fst (each (execute d) xs w) = None"
      by (rule each_returns [where I = ?I]) (use step in simp_all)
    then show ?thesis using MacroCommand execute_macro [OF arr] by simp
  qed simp_all
qed

lemma undo_returns:
  "ranked rank w \<Longrightarrow> allocated w c \<Longrightarrow> depth rank c \<le> d \<Longrightarrow> fst (undo d c w) = None"
proof (induction d arbitrary: c w)
  case 0
  then show ?case by (cases c) (simp_all add: depth_def)
next
  case (Suc d)
  show ?case
  proof (cases c)
    case (MacroCommand a)
    obtain xs where arr: "arrays w a = Some xs"
      using Suc.prems(2) MacroCommand by (auto simp: allocated_def)
    let ?w1 = "w\<lparr>arrays := (arrays w)(a \<mapsto> rev xs)\<rparr>"
    let ?I = "\<lambda>w'. ranked rank w' \<and> arrays w' a = Some (rev xs)"
    have step: "?I (snd (undo d c' w')) \<and> fst (undo d c' w') = None"
      if I: "?I w'" and c': "c' \<in> set (rev xs)" for c' w'
    proof -
      have k: "kept rank c' w' (snd (undo d c' w'))"
        using undo_kept I by blast
      have ab: "above rank c' a"
        using ranked_member_above I c' by blast
      have inv: "?I (snd (undo d c' w'))"
        using ranked_same_members k ab I unfolding kept_def by auto
      have "allocated w' c'"
        using ranked_member_allocated I c' by blast
      moreover have "depth rank c' \<le> d"
        using ranked_member_depth [of rank w' a "rev xs" c' d] I c' Suc.prems(3) MacroCommand
        by simp
      ultimately have "fst (undo d c' w') = None"
        using Suc.IH I by blast
      then show ?thesis using inv by simp
    qed
    have I1: "?I ?w1"
      using ranked_same_members [OF Suc.prems(1) same_members_reverse [OF arr]] by simp
    have "fst (each (undo d) (rev xs) ?w1) = None"
      by (rule each_returns [where I = ?I]) (use step I1 in simp_all)
    then show ?thesis using MacroCommand undo_macro [OF Suc.prems(1) arr] by simp
  qed simp_all
qed

subsection \<open>A macro over its own array\<close>

lemma execute_cycle_overflows:
  "arrays w a = Some [MacroCommand a] \<Longrightarrow>
   execute d (MacroCommand a) w = (Some RangeError, w)"
proof (induction d)
  case 0
  show ?case by simp
next
  case (Suc d)
  then show ?case
    using execute_macro [of w a "[MacroCommand a]" d] by simp
qed

lemma undo_cycle_overflows:
  "arrays w a = Some [MacroCommand a] \<Longrightarrow>
   fst (undo d (MacroCommand a) w) = Some RangeError"
proof (induction d arbitrary: w)
  case 0
  show ?case by simp
next
  case (Suc d)
  have "arrays (w\<lparr>arrays := (arrays w)(a \<mapsto> [MacroCommand a])\<rparr>) a = Some [MacroCommand a]"
    by simp
  note Suc.IH [OF this]
  then show ?case
    using Suc.prems by (auto simp: forEach.simps split: prod.split option.split)
qed

subsection \<open>The lines that undo prints\<close>

lemma reaches_same_members:
  "reaches w c c' \<Longrightarrow> same_members w w' \<Longrightarrow> reaches w' c c'"
proof (induction rule: reaches.induct)
  case (self c)
  show ?case by (rule reaches.self)
next
  case (member a xs x c)
  obtain ys where "arrays w' a = Some ys" "set ys = set xs"
    using same_members_Some [OF same_members_sym [OF member.prems] member.hyps(1)] by blast
  then show ?case
    using member.hyps(2) member.IH [OF member.prems] reaches.member by blast
qed

lemma lines_of_same_members: "same_members w w' \<Longrightarrow> lines_of w' c = lines_of w c"
  unfolding lines_of_def
  using reaches_same_members same_members_sym by blast

lemma reaches_leaf: "receiver_of c \<noteq> None \<Longrightarrow> reaches w c c' \<longleftrightarrow> c' = c"
  by (auto simp: receiver_of_def intro: reaches.self elim: reaches.cases split: Command.splits)

lemma lines_of_leaf: "receiver_of c = Some r \<Longrightarrow> lines_of w c = {(Some r, undone c)}"
  unfolding lines_of_def using reaches_leaf [of c w] by auto

lemma reaches_macro:
  "arrays w a = Some xs \<Longrightarrow>
   reaches w (MacroCommand a) c' \<longleftrightarrow> c' = MacroCommand a \<or> (\<exists>x\<in>set xs. reaches w x c')"
  by (auto intro: reaches.intros elim: reaches.cases)

lemma lines_of_macro:
  "arrays w a = Some xs \<Longrightarrow> lines_of w (MacroCommand a) = (\<Union>x\<in>set xs. lines_of w x)"
  unfolding lines_of_def
  by (auto simp: reaches_macro receiver_of_def)

lemma undo_leaf:
  "receiver_of c = Some r \<Longrightarrow> undo (Suc d) c w = (None, console_log (Some r) (undone c) w)"
  by (cases c) (auto simp: receiver_of_def undone_def Light_on_def Light_off_def TV_on_def TV_off_def)

lemma each_prints:
  assumes step: "\<And>c w. I w \<Longrightarrow> c \<in> set cs \<Longrightarrow>
                   I (snd (callback c w)) \<and> prints (callback c w) w (L c)"
  shows "I w \<Longrightarrow> prints (each callback cs w) w (\<Union>c\<in>set cs. L c)"
  using step
proof (induction cs arbitrary: w)
  case Nil
  then show ?case by (simp add: prints_def)
next
  case (Cons c cs)
  obtain st w' where r: "callback c w = (st, w')" by (cases "callback c w")
  have I': "I w'" and p: "prints (st, w') w (L c)"
    using Cons.prems(2) [of w c] Cons.prems(1) r by simp_all
  obtain ls where ls: "console w' = console w @ ls" "set ls \<subseteq> L c" "st = None \<longrightarrow> set ls = L c"
    using p unfolding prints_def by auto
  show ?case
  proof (cases st)
    case None
    have "prints (each callback cs w') w' (\<Union>c\<in>set cs. L c)"
      by (rule Cons.IH [OF I']) (simp add: Cons.prems(2))
    then obtain ms where ms: "console (snd (each callback cs w')) = console w' @ ms"
        "set ms \<subseteq> (\<Union>c\<in>set cs. L c)"
        "fst (each callback cs w') = None \<longrightarrow> set ms = (\<Union>c\<in>set cs. L c)"
      unfolding prints_def by auto
    have "console (snd (each callback cs w')) = console w @ (ls @ ms)"
      using ls ms by simp
    moreover have "set (ls @ ms) \<subseteq> (\<Union>c\<in>set (c # cs). L c)"
      using ls ms by auto
    moreover have "fst (each callback cs w') = None \<longrightarrow> set (ls @ ms) = (\<Union>c\<in>set (c # cs). L c)"
      using ls ms None by auto
    moreover have "each callback (c # cs) w = each callback cs w'"
      using r None by simp
    ultimately show ?thesis
      unfolding prints_def by (intro exI [of _ "ls @ ms"]) simp
  next
    case (Some e)
    have "set ls \<subseteq> (\<Union>c\<in>set (c # cs). L c)" using ls by auto
    then show ?thesis
      unfolding prints_def using r Some ls by auto
  qed
qed

lemma undo_prints: "ranked rank w \<Longrightarrow> prints (undo d c w) w (lines_of w c)"
proof (induction d arbitrary: c w)
  case 0
  show ?case by (simp add: prints_def)
next
  case (Suc d)
  show ?case
  proof (cases "receiver_of c")
    case (Some r)
    show ?thesis
      using undo_leaf [OF Some, of d w] lines_of_leaf [OF Some, of w]
      by (simp add: prints_def console_log_def del: undo.simps)
  next
    case None
    then obtain a where c: "c = MacroCommand a"
      by (cases c) (simp_all add: receiver_of_def)
    show ?thesis
    proof (cases "arrays w a")
      case None
      then show ?thesis using c by (simp add: prints_def)
    next
      case (Some xs)
      let ?w1 = "w\<lparr>arrays := (arrays w)(a \<mapsto> rev xs)\<rparr>"
      let ?I = "\<lambda>w'. ranked rank w' \<and> same_members w w'"
      have step: "?I (snd (undo d c' w')) \<and> prints (undo d c' w') w' (lines_of w c')"
        if I: "?I w'" for c' w'
      proof -
        have k: "kept rank c' w' (snd (undo d c' w'))"
          using undo_kept I by blast
        have "prints (undo d c' w') w' (lines_of w' c')"
          using Suc.IH I by blast
        moreover have "lines_of w' c' = lines_of w c'"
          using lines_of_same_members [of w w' c'] I by simp
        ultimately have "prints (undo d c' w') w' (lines_of w c')"
          by simp
        then show ?thesis
          using ranked_same_members same_members_trans k I unfolding kept_def by blast
      qed
      have I1: "?I ?w1"
        using ranked_same_members [OF Suc.prems same_members_reverse [OF Some]]
          same_members_reverse [OF Some] by simp
      have "prints (each (undo d) (rev xs) ?w1) ?w1 (\<Union>c\<in>set (rev xs). lines_of w c)"
        by (rule each_prints [where I = ?I]) (use step I1 in simp_all)
      then have "prints (undo (Suc d) c w) ?w1 (lines_of w c)"
        using c undo_macro [OF Suc.prems Some] lines_of_macro [OF Some] by simp
      then show ?thesis by (simp add: prints_def)
    qed
  qed
qed

subsection \<open>The invoker on a ranked store\<close>

lemma last_line_mem:
  assumes "(Some r, m0) \<in> set ls"
  shows "\<exists>m. last_line r ls = Some m \<and> (Some r, m) \<in> set ls"
proof -
  let ?f = "filter (\<lambda>l. fst l = Some r) ls"
  have ne: "?f \<noteq> []"
    using assms by (force simp: filter_empty_conv)
  then have "last ?f \<in> set ?f" by (rule last_in_set)
  then have "last ?f \<in> set ls" "fst (last ?f) = Some r" by auto
  then have "(Some r, snd (last ?f)) \<in> set ls"
    by (metis prod.collapse)
  moreover have "last_line r ls = Some (snd (last ?f))"
    using ne by (cases ?f) (simp_all add: last_line_def)
  ultimately show ?thesis by blast
qed

lemma console_execute: "\<exists>ls. console (snd (execute d c w)) = console w @ ls"
proof (induction d arbitrary: c w)
  case 0
  show ?case by simp
next
  case (Suc d)
  show ?case
  proof (cases c)
    case (MacroCommand a)
    show ?thesis
    proof (cases "arrays w a")
      case None
      then show ?thesis using MacroCommand by simp
    next
      case (Some xs)
      let ?I = "\<lambda>w'. \<exists>ls. console w' = console w @ ls"
      have step: "?I (snd (execute d c' w'))" if "?I w'" for c' w'
        using that Suc.IH [of c' w'] by auto
      have "?I (snd (each (execute d) xs w))"
        by (rule each_invariant [where I = ?I]) (use step in simp_all)
      then show ?thesis using MacroCommand execute_macro [OF Some] by simp
    qed
  qed (simp_all add: receiver_defs)
qed

lemma same_members_arrays_eq: "arrays w' = arrays w \<Longrightarrow> same_members w w'"
  by (simp add: same_members_def)

lemma pressUndo_holding:
  "undoCommand rc = Some c \<Longrightarrow>
   pressUndo d rc w =
     (case undo d c w of
        (None, w') \<Rightarrow> (None, rc\<lparr>undoCommand := None\<rparr>, w')
      | (Some e, w') \<Rightarrow> (Some e, rc, w'))"
  by (simp add: pressUndo_def)

lemma pressButton_returns:
  assumes "ranked rank w" "0 \<le> i" "i < int (length (commands rc))"
    "allocated w (commands rc ! nat i)" "depth rank (commands rc ! nat i) \<le> d"
  shows "pressButton d i rc w =
           (None, rc\<lparr>undoCommand := Some (commands rc ! nat i)\<rparr>, snd (execute d (commands rc ! nat i) w))"
proof -
  have "fst (execute d (commands rc ! nat i) w) = None"
    using execute_returns assms by blast
  then show ?thesis
    using pressButton_valid [OF assms(2,3) refl, of d w]
    by (cases "execute d (commands rc ! nat i) w") simp
qed

lemma pressUndo_returns:
  assumes "ranked rank w" "undoCommand rc = Some c" "allocated w c" "depth rank c \<le> d"
  shows "pressUndo d rc w = (None, rc\<lparr>undoCommand := None\<rparr>, snd (undo d c w))"
proof -
  have "fst (undo d c w) = None"
    using undo_returns assms by blast
  then show ?thesis
    using pressUndo_holding [OF assms(2), of d w]
    by (cases "undo d c w") simp
qed

lemma pressUndo_empty:
  "undoCommand rc = None \<Longrightarrow>
   pressUndo d rc w = (None, rc, console_log None ''No command to undo'' w)"
  by (simp add: pressUndo_def)

lemma ranked_client_world: "ranked (\<lambda>a. 0) (client_world l t out)"
  by (auto simp: ranked_def client_world_def split: if_splits)

lemma client_remote_commands:
  "commands (client_remote l t) =
     [LightOnCommand l, TVOnCommand t, LightOffCommand l, TVOffCommand t,
      MacroCommand 0, MacroCommand 1]"
  by (simp add: client_remote_def commands_register_all new_RemoteControl_def)

section \<open>The claims\<close>

text \<open>
  Claim C1 says that \<^verbatim>\<open>pressButton\<close> with an index below 0 or not below the number
  of registered commands runs no command, reports "command not found" without raising,
  and leaves the undo slot alone. The code tests only the upper bound: at index \<open>-1\<close>,
  on any remote and in any world, it raises \<^verbatim>\<open>TypeError\<close>. Nothing is printed and the
  slot is as before, but the call does not return.
\<close>

theorem C1_pressButton_negative_index_raises:
  "pressButton d (- 1) rc w = (Some TypeError, rc, w)"
  by (simp add: pressButton_def)

text \<open>
  Claim C2 says that a macro's sequence is fixed at construction, so that every
  \<^verbatim>\<open>execute()\<close> runs the members in the order c1, ..., cn and every \<^verbatim>\<open>undo()\<close>
  in the order cn, ..., c1. For the macro \<^verbatim>\<open>partyModeOn\<close> over [lightOn, tvOn],
  \<^verbatim>\<open>undo()\<close> leaves the stored array reversed; the \<^verbatim>\<open>execute()\<close> after it prints
  "TV is ON" before "Light is ON", so it ran tvOn first; and a second \<^verbatim>\<open>undo()\<close>
  after the first prints "Light is OFF" before "TV is OFF", so it ran in the order
  c1, c2.
\<close>

theorem C2_execute_after_undo_runs_backwards:
  "arrays (snd (undo (Suc (Suc d)) (MacroCommand 0) (client_world l t []))) 0 =
     Some [TVOnCommand t, LightOnCommand l] \<and>
   console (snd (execute (Suc (Suc d)) (MacroCommand 0)
      (snd (undo (Suc (Suc d)) (MacroCommand 0) (client_world l t []))))) =
     [(Some (TV t), ''TV is OFF''), (Some (Light l), ''Light is OFF''),
      (Some (TV t), ''TV is ON''), (Some (Light l), ''Light is ON'')] \<and>
   console (snd (undo (Suc (Suc d)) (MacroCommand 0)
      (snd (undo (Suc (Suc d)) (MacroCommand 0) (client_world l t []))))) =
     [(Some (TV t), ''TV is OFF''), (Some (Light l), ''Light is OFF''),
      (Some (Light l), ''Light is OFF''), (Some (TV t), ''TV is OFF'')]"
  by (simp add: client_world_def forEach.simps receiver_defs)

text \<open>
  Claim C3 describes the undo slot as a machine with the states Empty and Holding, and
  concludes that two \<^verbatim>\<open>pressUndo\<close> calls in a row perform exactly one receiver
  mutation. The machine is as described, but the count is not: after the client's
  button 5 (the macro partyModeOff) the two undo calls return and make two receiver
  calls, one for the TV and one for the light.
\<close>

theorem C3_two_undos_two_receiver_actions:
  "fst (press_all 2 [PressButton 5, PressUndo, PressUndo] (client_remote 0 1)
          (client_world 0 1 [])) = None \<and>
   receiver_actions (snd (snd (press_all 2 [PressButton 5, PressUndo, PressUndo]
      (client_remote 0 1) (client_world 0 1 [])))) =
   receiver_actions (snd (snd (press_all 2 [PressButton 5]
      (client_remote 0 1) (client_world 0 1 [])))) + 2"
  by (simp add: client_remote_commands pressButton_def pressUndo_def client_world_def
      receiver_defs receiver_actions_def forEach.simps eval_nat_numeral)

text \<open>
  Claim C3, amended. On a store without cycles and with room on the stack:
  a new remote has an empty slot; a press of a valid index returns and leaves the
  pressed command in the slot, whatever the slot held; \<^verbatim>\<open>pressUndo\<close> on a slot holding
  \<open>c\<close> returns, does what \<open>undo\<close> of \<open>c\<close> does and empties the slot, and a second
  \<^verbatim>\<open>pressUndo\<close> right after it only prints "No command to undo"; that line is no
  receiver call. So of two undo calls in a row only the first acts on receivers, with
  the receiver calls of one \<open>undo\<close> of the held command: exactly one when that is a
  concrete command, one for each member when it is a macro. On an empty slot
  \<^verbatim>\<open>pressUndo\<close> prints "No command to undo" and does nothing else.
\<close>

theorem C3_undo_slot_state_machine:
  assumes r: "ranked rank w"
  shows "undoCommand new_RemoteControl = None \<and>
    (0 \<le> i \<and> i < int (length (commands rc)) \<and> allocated w (commands rc ! nat i) \<and>
       depth rank (commands rc ! nat i) \<le> d \<longrightarrow>
     pressButton d i rc w =
       (None, rc\<lparr>undoCommand := Some (commands rc ! nat i)\<rparr>,
        snd (execute d (commands rc ! nat i) w))) \<and>
    (undoCommand rc = Some c \<and> allocated w c \<and> depth rank c \<le> d \<longrightarrow>
     pressUndo d rc w = (None, rc\<lparr>undoCommand := None\<rparr>, snd (undo d c w)) \<and>
     pressUndo d (rc\<lparr>undoCommand := None\<rparr>) (snd (undo d c w)) =
       (None, rc\<lparr>undoCommand := None\<rparr>,
        console_log None ''No command to undo'' (snd (undo d c w)))) \<and>
    receiver_actions (console_log None msg w) = receiver_actions w \<and>
    (undoCommand rc = Some c \<and> receiver_of c = Some r' \<longrightarrow>
     press_all (Suc d) [PressUndo, PressUndo] rc w =
       (None, rc\<lparr>undoCommand := None\<rparr>,
        w\<lparr>console := console w @ [(Some r', undone c), (None, ''No command to undo'')]\<rparr>)) \<and>
    (undoCommand rc = None \<longrightarrow>
     pressUndo d rc w = (None, rc, console_log None ''No command to undo'' w))"
proof -
  have a: "undoCommand new_RemoteControl = None"
    by (simp add: new_RemoteControl_def)
  have b: "pressButton d i rc w =
       (None, rc\<lparr>undoCommand := Some (commands rc ! nat i)\<rparr>,
        snd (execute d (commands rc ! nat i) w))"
    if "0 \<le> i" "i < int (length (commands rc))" "allocated w (commands rc ! nat i)"
       "depth rank (commands rc ! nat i) \<le> d"
    using pressButton_returns [OF r that] .
  have c1: "pressUndo d rc w = (None, rc\<lparr>undoCommand := None\<rparr>, snd (undo d c w))"
    if "undoCommand rc = Some c" "allocated w c" "depth rank c \<le> d"
    using pressUndo_returns [OF r that] .
  have c2: "pressUndo d (rc\<lparr>undoCommand := None\<rparr>) w' =
       (None, rc\<lparr>undoCommand := None\<rparr>, console_log None ''No command to undo'' w')" for w'
    by (simp add: pressUndo_def)
  have n: "receiver_actions (console_log None msg w) = receiver_actions w"
    by (simp add: receiver_actions_def console_log_def)
  have e: "press_all (Suc d) [PressUndo, PressUndo] rc w =
       (None, rc\<lparr>undoCommand := None\<rparr>,
        w\<lparr>console := console w @ [(Some r', undone c), (None, ''No command to undo'')]\<rparr>)"
    if "undoCommand rc = Some c" "receiver_of c = Some r'"
    using that undo_leaf [OF that(2), of d w]
    by (simp add: pressUndo_def console_log_def del: undo.simps)
  have f: "pressUndo d rc w = (None, rc, console_log None ''No command to undo'' w)"
    if "undoCommand rc = None"
    using pressUndo_empty [OF that] .
  show ?thesis
    using a b c1 c2 n e f by blast
qed

theorem C3_undo_slot_state_machine_witness:
  "ranked (\<lambda>a. 0) (client_world 0 1 []) \<and>
   undoCommand new_RemoteControl = None \<and>
   (0::int) \<le> 5 \<and> 5 < int (length (commands (client_remote 0 1))) \<and>
   allocated (client_world 0 1 []) (commands (client_remote 0 1) ! nat 5) \<and>
   depth (\<lambda>a. 0) (commands (client_remote 0 1) ! nat 5) \<le> 2 \<and>
   pressButton 2 5 (client_remote 0 1) (client_world 0 1 []) =
     (None, (client_remote 0 1)\<lparr>undoCommand := Some (commands (client_remote 0 1) ! nat 5)\<rparr>,
      snd (execute 2 (commands (client_remote 0 1) ! nat 5) (client_world 0 1 []))) \<and>
   undoCommand (client_remote 0 1) = None \<and>
   pressUndo 2 (client_remote 0 1) (client_world 0 1 []) =
     (None, client_remote 0 1, console_log None ''No command to undo'' (client_world 0 1 [])) \<and>
   undoCommand ((client_remote 0 1)\<lparr>undoCommand := Some (MacroCommand 1)\<rparr>) =
     Some (MacroCommand 1) \<and>
   allocated (client_world 0 1 []) (MacroCommand 1) \<and>
   depth (\<lambda>a. 0) (MacroCommand 1) \<le> 2 \<and>
   pressUndo 2 ((client_remote 0 1)\<lparr>undoCommand := Some (MacroCommand 1)\<rparr>)
       (client_world 0 1 []) =
     (None, (client_remote 0 1)\<lparr>undoCommand := Some (MacroCommand 1), undoCommand := None\<rparr>,
      snd (undo 2 (MacroCommand 1) (client_world 0 1 []))) \<and>
   undoCommand ((client_remote 0 1)\<lparr>undoCommand := Some (LightOnCommand 0)\<rparr>) =
     Some (LightOnCommand 0) \<and>
   receiver_of (LightOnCommand 0) = Some (Light 0) \<and>
   press_all (Suc (Suc 0)) [PressUndo, PressUndo]
       ((client_remote 0 1)\<lparr>undoCommand := Some (LightOnCommand 0)\<rparr>) (client_world 0 1 []) =
     (None, (client_remote 0 1)\<lparr>undoCommand := Some (LightOnCommand 0), undoCommand := None\<rparr>,
      (client_world 0 1 [])\<lparr>console := console (client_world 0 1 []) @
         [(Some (Light 0), undone (LightOnCommand 0)), (None, ''No command to undo'')]\<rparr>)"
proof -
  let ?w = "client_world 0 1 []"
  let ?rc = "client_remote 0 1"
  have r: "ranked (\<lambda>a. 0) ?w" by (rule ranked_client_world)
  have c5: "commands ?rc ! nat 5 = MacroCommand 1"
    by (simp add: client_remote_commands)
  have arr: "arrays ?w 1 = Some [LightOffCommand 0, TVOffCommand 1]"
    by (simp add: client_world_def)
  have i: "(0::int) \<le> 5" "5 < int (length (commands ?rc))"
    by (simp_all add: client_remote_commands)
  have al: "allocated ?w (MacroCommand 1)"
    unfolding allocated_def using arr by simp
  have dp: "depth (\<lambda>a. 0) (MacroCommand 1) \<le> 2"
    by (simp add: depth_def)
  have n: "undoCommand ?rc = None"
    by (simp add: client_defs)
  have h2: "undoCommand (?rc\<lparr>undoCommand := Some (MacroCommand 1)\<rparr>) = Some (MacroCommand 1)"
    by simp
  have h3: "undoCommand (?rc\<lparr>undoCommand := Some (LightOnCommand 0)\<rparr>) = Some (LightOnCommand 0)"
    by simp
  have rv: "receiver_of (LightOnCommand 0) = Some (Light 0)"
    by (simp add: receiver_of_def)
  note t1 = C3_undo_slot_state_machine [OF r, where i = 5 and rc = ?rc and d = 2]
  note t2 = C3_undo_slot_state_machine [OF r, where d = 2 and c = "MacroCommand 1"
      and rc = "?rc\<lparr>undoCommand := Some (MacroCommand 1)\<rparr>"]
  note t3 = C3_undo_slot_state_machine [OF r, where d = "Suc 0" and c = "LightOnCommand 0"
      and r' = "Light 0" and rc = "?rc\<lparr>undoCommand := Some (LightOnCommand 0)\<rparr>"]
  have b: "pressButton 2 5 ?rc ?w =
     (None, ?rc\<lparr>undoCommand := Some (commands ?rc ! nat 5)\<rparr>,
      snd (execute 2 (commands ?rc ! nat 5) ?w))"
    using t1 i al dp c5 by simp
  have f: "pressUndo 2 ?rc ?w = (None, ?rc, console_log None ''No command to undo'' ?w)"
    using t1 n by blast
  have c: "pressUndo 2 (?rc\<lparr>undoCommand := Some (MacroCommand 1)\<rparr>) ?w =
     (None, ?rc\<lparr>undoCommand := Some (MacroCommand 1), undoCommand := None\<rparr>,
      snd (undo 2 (MacroCommand 1) ?w))"
    using t2 h2 al dp by blast
  have e: "press_all (Suc (Suc 0)) [PressUndo, PressUndo]
       (?rc\<lparr>undoCommand := Some (LightOnCommand 0)\<rparr>) ?w =
     (None, ?rc\<lparr>undoCommand := Some (LightOnCommand 0), undoCommand := None\<rparr>,
      ?w\<lparr>console := console ?w @
         [(Some (Light 0), undone (LightOnCommand 0)), (None, ''No command to undo'')]\<rparr>)"
    using t3 h3 rv by blast
  show ?thesis
    using r i al dp n h2 h3 rv b f c e c5 by (simp add: new_RemoteControl_def)
qed

text \<open>
  Claim C4 says that a press of a valid index followed at once by an undo returns every
  receiver bound by the pressed command to the state it showed before the press, from
  every state. A command keeps no record of the state it found: when the light is
  already ON, button 0 (lightOn) and the undo leave it OFF.
\<close>

theorem C4_dispatch_undo_changes_light:
  "fst (press_all 2 [PressButton 0, PressUndo] (client_remote 0 1)
         (client_world 0 1 [(Some (Light 0), ''Light is ON'')])) = None \<and>
   observable (Light 0) (client_world 0 1 [(Some (Light 0), ''Light is ON'')]) =
     Some ''Light is ON'' \<and>
   observable (Light 0)
     (snd (snd (press_all 2 [PressButton 0, PressUndo] (client_remote 0 1)
         (client_world 0 1 [(Some (Light 0), ''Light is ON'')])))) = Some ''Light is OFF''"
  by (simp add: client_remote_commands pressButton_def pressUndo_def client_world_def
      receiver_defs observable_def last_line_def eval_nat_numeral)

text \<open>
  Claim C4, amended. Take a store without cycles, a valid index with room on the stack
  for its command, and a world in which every receiver bound by that command (directly,
  or by a member of the macro at any depth) shows the state that the undo of the
  binding command leaves: OFF for an On command, ON for an Off command. Then the press
  and the undo right after it both return, and every such receiver shows the state it
  showed before the press.
\<close>

theorem C4_dispatch_undo_restores_settled:
  assumes r: "ranked rank w"
    and i: "0 \<le> i" "i < int (length (commands rc))"
    and al: "allocated w (commands rc ! nat i)"
    and dp: "depth rank (commands rc ! nat i) \<le> d"
    and st: "settled w (commands rc ! nat i)"
    and bound: "reaches w (commands rc ! nat i) c'" "receiver_of c' = Some r'"
  shows "(case pressButton d i rc w of
            (st1, rc1, w1) \<Rightarrow>
              (case pressUndo d rc1 w1 of
                 (st2, rc2, w2) \<Rightarrow>
                   st1 = None \<and> st2 = None \<and> observable r' w2 = observable r' w))"
proof -
  let ?c = "commands rc ! nat i"
  let ?w1 = "snd (execute d ?c w)"
  let ?rc1 = "rc\<lparr>undoCommand := Some ?c\<rparr>"
  let ?w2 = "snd (undo d ?c ?w1)"
  have p1: "pressButton d i rc w = (None, ?rc1, ?w1)"
    using pressButton_returns [OF r i al dp] .
  have arr: "arrays ?w1 = arrays w" by (rule arrays_execute)
  have r1: "ranked rank ?w1" using ranked_arrays_eq [OF arr] r by simp
  have al1: "allocated ?w1 ?c" using allocated_arrays_eq [OF arr] al by simp
  have p2: "pressUndo d ?rc1 ?w1 = (None, ?rc1\<lparr>undoCommand := None\<rparr>, ?w2)"
    using pressUndo_returns [OF r1 _ al1 dp, of ?rc1] by simp
  obtain ls1 where ls1: "console ?w1 = console w @ ls1"
    using console_execute by blast
  have ret: "fst (undo d ?c ?w1) = None"
    using undo_returns [OF r1 al1 dp] .
  have "lines_of ?w1 ?c = lines_of w ?c"
    using lines_of_same_members [OF same_members_arrays_eq [OF arr]] .
  then have "prints (undo d ?c ?w1) ?w1 (lines_of w ?c)"
    using undo_prints [OF r1, of d ?c] by simp
  then obtain ls2 where ls2: "console ?w2 = console ?w1 @ ls2" "set ls2 = lines_of w ?c"
    using ret unfolding prints_def by auto
  have "(Some r', undone c') \<in> set ls2"
    using bound ls2(2) unfolding lines_of_def by force
  then obtain m where m: "last_line r' ls2 = Some m" "(Some r', m) \<in> set ls2"
    using last_line_mem by blast
  then obtain c'' where c'': "reaches w ?c c''" "receiver_of c'' = Some r'" "undone c'' = m"
    using ls2(2) unfolding lines_of_def by auto
  have before: "observable r' w = Some m"
    using st c'' unfolding settled_def by blast
  have "console ?w2 = (console w @ ls1) @ ls2"
    using ls1 ls2(1) by simp
  then have "observable r' ?w2 = Some m"
    unfolding observable_def using m(1) by (simp only: last_line_append) simp
  then show ?thesis
    using p1 p2 before by simp
qed

theorem C4_dispatch_undo_restores_settled_witness:
  "ranked (\<lambda>a. 0) (client_world 0 1 off_lines) \<and>
   (0::int) \<le> 4 \<and> 4 < int (length (commands (client_remote 0 1))) \<and>
   allocated (client_world 0 1 off_lines) (commands (client_remote 0 1) ! nat 4) \<and>
   depth (\<lambda>a. 0) (commands (client_remote 0 1) ! nat 4) \<le> 2 \<and>
   settled (client_world 0 1 off_lines) (commands (client_remote 0 1) ! nat 4) \<and>
   reaches (client_world 0 1 off_lines) (commands (client_remote 0 1) ! nat 4)
     (LightOnCommand 0) \<and>
   receiver_of (LightOnCommand 0) = Some (Light 0) \<and>
   (case pressButton 2 4 (client_remote 0 1) (client_world 0 1 off_lines) of
      (st1, rc1, w1) \<Rightarrow>
        (case pressUndo 2 rc1 w1 of
           (st2, rc2, w2) \<Rightarrow>
             st1 = None \<and> st2 = None \<and>
             observable (Light 0) w2 = observable (Light 0) (client_world 0 1 off_lines)))"
proof -
  let ?w = "client_world 0 1 off_lines"
  let ?rc = "client_remote 0 1"
  have c: "commands ?rc ! nat 4 = MacroCommand 0"
    by (simp add: client_remote_commands)
  have arr: "arrays ?w 0 = Some [LightOnCommand 0, TVOnCommand 1]"
    by (simp add: client_world_def)
  have r: "ranked (\<lambda>a. 0) ?w" by (rule ranked_client_world)
  have i: "(0::int) \<le> 4" "4 < int (length (commands ?rc))"
    by (simp_all add: client_remote_commands)
  have al: "allocated ?w (commands ?rc ! nat 4)"
    unfolding c allocated_def using arr by simp
  have dp: "depth (\<lambda>a. 0) (commands ?rc ! nat 4) \<le> 2"
    unfolding c by (simp add: depth_def)
  have obs: "observable (Light 0) ?w = Some ''Light is OFF''"
      "observable (TV 1) ?w = Some ''TV is OFF''"
    by (simp_all add: observable_def last_line_def client_world_def off_lines_def)
  have st: "settled ?w (commands ?rc ! nat 4)"
    unfolding settled_def c
  proof (intro allI impI)
    fix c' r
    assume re: "reaches ?w (MacroCommand 0) c'" and rv: "receiver_of c' = Some r"
    from re have "c' = MacroCommand 0 \<or> c' = LightOnCommand 0 \<or> c' = TVOnCommand 1"
      unfolding reaches_macro [OF arr] by (auto simp: reaches_leaf receiver_of_def)
    then show "observable r ?w = Some (undone c')"
      using rv obs by (auto simp: receiver_of_def undone_def)
  qed
  have re: "reaches ?w (commands ?rc ! nat 4) (LightOnCommand 0)"
    unfolding c reaches_macro [OF arr] by (simp add: reaches_leaf receiver_of_def)
  have rv: "receiver_of (LightOnCommand 0) = Some (Light 0)"
    by (simp add: receiver_of_def)
  show ?thesis
    using r i al dp st re rv C4_dispatch_undo_restores_settled [OF r i al dp st re rv]
    by blast
qed

text \<open>
  Claim C5 says that \<^verbatim>\<open>setCommand\<close> appends the command and returns its index. It
  is declared \<^verbatim>\<open>void\<close>: the first registration on a new remote does not return 0.
\<close>

theorem C5_setCommand_returns_no_index:
  "fst (setCommand (LightOnCommand 0) new_RemoteControl) \<noteq> Number 0"
  by (simp add: setCommand_def)

text \<open>
  Claim C5, amended: \<^verbatim>\<open>setCommand\<close> returns nothing; it appends the command at the
  end of the list and changes nothing else, so on a new remote the commands registered
  one after the other are the list itself: the n-th registered command is at index n - 1.
\<close>

theorem C5_setCommand_appends:
  "fst (setCommand c rc) = Undefined \<and>
   commands (snd (setCommand c rc)) = commands rc @ [c] \<and>
   commands (snd (setCommand c rc)) ! length (commands rc) = c \<and>
   undoCommand (snd (setCommand c rc)) = undoCommand rc \<and>
   commands (register_all cs new_RemoteControl) = cs"
  by (simp add: commands_register_all) (simp add: setCommand_def new_RemoteControl_def)

text \<open>
  Claim C6: in the scenario of the specification (LightOn, LightOff, TVOn, TVOff and the
  two macros at indices 0 to 5) the presses 0, 1, 2, 3, 4, 5 followed by an undo all
  return and leave the light ON and the TV ON, whatever was printed before. The same
  holds for the remote of the client code, which registers tvOn before lightOff.
\<close>

theorem C6_scenario_ends_light_on_tv_on:
  "(case press_all (Suc (Suc d)) client_presses (scenario_remote l t) (client_world l t out) of
      (st, rc, w) \<Rightarrow>
        st = None \<and> observable (Light l) w = Some ''Light is ON'' \<and>
        observable (TV t) w = Some ''TV is ON'') \<and>
   (case press_all (Suc (Suc d)) client_presses (client_remote l t) (client_world l t out) of
      (st, rc, w) \<Rightarrow>
        st = None \<and> observable (Light l) w = Some ''Light is ON'' \<and>
        observable (TV t) w = Some ''TV is ON'')"
  apply (simp add: client_defs pressButton_def pressUndo_def forEach.simps receiver_defs)
  apply (simp add: observable_def last_line_append)
  apply (simp add: last_line_def)
  done

text \<open>
  Claim C7: after the same command \<open>c\<close> is registered twice it stands at two indices,
  \<open>n\<close> and \<open>n + 1\<close> for a remote that held \<open>n\<close> commands. A press of either index
  is one and the same step: it executes \<open>c\<close> and, when that returns, holds \<open>c\<close> in the
  undo slot. An undo from a slot holding \<open>c\<close> runs \<open>undo\<close> of \<open>c\<close> and empties the slot.
\<close>

theorem C7_same_command_twice:
  "commands (snd (setCommand c (snd (setCommand c rc)))) = commands rc @ [c, c] \<and>
   pressButton d (int (length (commands rc))) (snd (setCommand c (snd (setCommand c rc)))) w =
     (case execute d c w of
        (None, w') \<Rightarrow>
          (None, snd (setCommand c (snd (setCommand c rc)))\<lparr>undoCommand := Some c\<rparr>, w')
      | (Some e, w') \<Rightarrow> (Some e, snd (setCommand c (snd (setCommand c rc))), w')) \<and>
   pressButton d (int (length (commands rc)) + 1) (snd (setCommand c (snd (setCommand c rc)))) w =
   pressButton d (int (length (commands rc))) (snd (setCommand c (snd (setCommand c rc)))) w \<and>
   pressUndo d' (rc'\<lparr>undoCommand := Some c\<rparr>) w' =
     (case undo d' c w' of
        (None, w'') \<Rightarrow> (None, rc'\<lparr>undoCommand := None\<rparr>, w'')
      | (Some e, w'') \<Rightarrow> (Some e, rc'\<lparr>undoCommand := Some c\<rparr>, w''))"
proof -
  let ?rc2 = "snd (setCommand c (snd (setCommand c rc)))"
  let ?n = "length (commands rc)"
  have cs: "commands ?rc2 = commands rc @ [c, c]"
    by (simp add: setCommand_def)
  have at_n: "commands ?rc2 ! nat (int ?n) = c"
    by (simp add: cs nth_append)
  have at_Suc: "commands ?rc2 ! nat (int ?n + 1) = c"
    by (simp add: cs nth_append nat_add_distrib)
  have first: "pressButton d (int ?n) ?rc2 w =
     (case execute d c w of
        (None, w') \<Rightarrow> (None, ?rc2\<lparr>undoCommand := Some c\<rparr>, w')
      | (Some e, w') \<Rightarrow> (Some e, ?rc2, w'))"
    using pressButton_valid [of "int ?n" ?rc2 c d w] at_n by (simp add: cs)
  have second: "pressButton d (int ?n + 1) ?rc2 w =
     (case execute d c w of
        (None, w') \<Rightarrow> (None, ?rc2\<lparr>undoCommand := Some c\<rparr>, w')
      | (Some e, w') \<Rightarrow> (Some e, ?rc2, w'))"
    using pressButton_valid [of "int ?n + 1" ?rc2 c d w] at_Suc by (simp add: cs)
  have third: "pressUndo d' (rc'\<lparr>undoCommand := Some c\<rparr>) w' =
     (case undo d' c w' of
        (None, w'') \<Rightarrow> (None, rc'\<lparr>undoCommand := None\<rparr>, w'')
      | (Some e, w'') \<Rightarrow> (Some e, rc'\<lparr>undoCommand := Some c\<rparr>, w''))"
    by (auto simp: pressUndo_def split: prod.split option.split)
  show ?thesis
    using cs first second third by simp
qed

text \<open>
  Claim C8: on a macro over the empty array, \<^verbatim>\<open>execute()\<close> and \<^verbatim>\<open>undo()\<close> return
  normally and leave the world as it is, whenever there is room for the call itself.
\<close>

theorem C8_empty_macro_is_noop:
  "arrays w a = Some [] \<Longrightarrow>
   execute (Suc d) (MacroCommand a) w = (None, w) \<and>
   undo (Suc d) (MacroCommand a) w = (None, w)"
  by (simp add: forEach.simps map_upd_triv)

theorem C8_empty_macro_is_noop_witness:
  "arrays \<lparr>arrays = [0 \<mapsto> []], console = []\<rparr> 0 = Some [] \<and>
   execute (Suc 0) (MacroCommand 0) \<lparr>arrays = [0 \<mapsto> []], console = []\<rparr> =
     (None, \<lparr>arrays = [0 \<mapsto> []], console = []\<rparr>) \<and>
   undo (Suc 0) (MacroCommand 0) \<lparr>arrays = [0 \<mapsto> []], console = []\<rparr> =
     (None, \<lparr>arrays = [0 \<mapsto> []], console = []\<rparr>)"
  using C8_empty_macro_is_noop [of "\<lparr>arrays = [0 \<mapsto> []], console = []\<rparr>" 0 0]
  by simp

text \<open>
  Claim C9: no sequence of \<^verbatim>\<open>pressButton\<close> and \<^verbatim>\<open>pressUndo\<close> calls, with valid or
  invalid indices, returning or raising, changes the remote's list of commands; and
  \<^verbatim>\<open>setCommand\<close> changes it by appending.
\<close>

theorem C9_presses_keep_commands:
  "commands (fst (snd (press_all d ps rc w))) = commands rc \<and>
   commands (fst (snd (pressButton d index rc w))) = commands rc \<and>
   commands (fst (snd (pressUndo d rc w))) = commands rc \<and>
   commands (snd (setCommand c rc)) = commands rc @ [c]"
  by (simp add: commands_press_all commands_pressButton commands_pressUndo)
     (simp add: setCommand_def)

text \<open>
  Claim C10: \<^verbatim>\<open>undo()\<close> of a macro reverses the stored array in place. On a store
  without cycles, for a macro over the array \<open>xs\<close> = [c1, ..., cn]: the undo calls the
  members' undo in the order cn, ..., c1; afterwards the stored array is the reverse of
  \<open>xs\<close>; an execute that follows calls the members' execute in the order cn, ..., c1;
  and a second undo calls the members' undo in the order c1, ..., cn, the reverse of the
  first.
\<close>

theorem C10_undo_reverses_in_place:
  assumes r: "ranked rank w" and arr: "arrays w a = Some xs"
  shows "undo (Suc d) (MacroCommand a) w =
           each (undo d) (rev xs) (w\<lparr>arrays := (arrays w)(a \<mapsto> rev xs)\<rparr>) \<and>
         arrays (snd (undo (Suc d) (MacroCommand a) w)) a = Some (rev xs) \<and>
         execute (Suc d') (MacroCommand a) (snd (undo (Suc d) (MacroCommand a) w)) =
           each (execute d') (rev xs) (snd (undo (Suc d) (MacroCommand a) w)) \<and>
         undo (Suc d') (MacroCommand a) (snd (undo (Suc d) (MacroCommand a) w)) =
           each (undo d') xs
             ((snd (undo (Suc d) (MacroCommand a) w))
                \<lparr>arrays := (arrays (snd (undo (Suc d) (MacroCommand a) w)))(a \<mapsto> xs)\<rparr>)"
proof -
  let ?w' = "snd (undo (Suc d) (MacroCommand a) w)"
  have 1: "undo (Suc d) (MacroCommand a) w =
           each (undo d) (rev xs) (w\<lparr>arrays := (arrays w)(a \<mapsto> rev xs)\<rparr>)"
    using undo_macro [OF r arr] .
  have 2: "arrays ?w' a = Some (rev xs)"
    using undo_macro_array [OF r arr] .
  have r': "ranked rank ?w'"
    using undo_kept [OF r, of "MacroCommand a" "Suc d"] ranked_same_members [OF r]
    unfolding kept_def by blast
  have 3: "execute (Suc d') (MacroCommand a) ?w' = each (execute d') (rev xs) ?w'"
    using execute_macro [OF 2] .
  have 4: "undo (Suc d') (MacroCommand a) ?w' =
           each (undo d') xs (?w'\<lparr>arrays := (arrays ?w')(a \<mapsto> xs)\<rparr>)"
    using undo_macro [OF r' 2, of d'] by simp
  show ?thesis using 1 2 3 4 by blast
qed

theorem C10_undo_reverses_in_place_witness:
  "ranked (\<lambda>a. 0) (client_world 0 1 []) \<and>
   arrays (client_world 0 1 []) 0 = Some [LightOnCommand 0, TVOnCommand 1] \<and>
   arrays (snd (undo (Suc (Suc 0)) (MacroCommand 0) (client_world 0 1 []))) 0 =
     Some (rev [LightOnCommand 0, TVOnCommand 1]) \<and>
   execute (Suc (Suc 0)) (MacroCommand 0)
       (snd (undo (Suc (Suc 0)) (MacroCommand 0) (client_world 0 1 []))) =
     each (execute (Suc 0)) (rev [LightOnCommand 0, TVOnCommand 1])
       (snd (undo (Suc (Suc 0)) (MacroCommand 0) (client_world 0 1 [])))"
proof -
  have r: "ranked (\<lambda>a. 0) (client_world 0 1 [])"
    by (rule ranked_client_world)
  have arr: "arrays (client_world 0 1 []) 0 = Some [LightOnCommand 0, TVOnCommand 1]"
    by (simp add: client_world_def)
  show ?thesis
    using r arr C10_undo_reverses_in_place [OF r arr, of "Suc 0" "Suc 0"] by blast
qed

end
